theory Spec2Isabelle
  imports Main "HOL-Library.Sublist"
begin

section \<open>Strings and characters\<close>

text \<open>
  JavaScript strings are modelled as \<^typ>\<open>string\<close>, one \<^typ>\<open>char\<close> per code unit.
  A \<^typ>\<open>char\<close> has eight bits, so the texts of the model are the Latin-1 texts; code
  units above 255 are outside the model.

  \<open>toLowerCase\<close> maps A-Z and the Latin-1 capitals (U+00C0 to U+00DE without the
  multiplication sign U+00D7) to the letter 32 places further on, and leaves every other
  Latin-1 character as it is.
\<close>

definition toLowerCase_char :: "char \<Rightarrow> char" where
  "toLowerCase_char c =
     (let n = (of_char c :: nat)
      in if (65 \<le> n \<and> n \<le> 90) \<or> (192 \<le> n \<and> n \<le> 222 \<and> n \<noteq> 215)
         then char_of (n + 32) else c)"

definition toLowerCase :: "string \<Rightarrow> string" where
  "toLowerCase text = map toLowerCase_char text"

text \<open>\<open>text.startsWith(p)\<close>, \<open>text.endsWith(p)\<close> and \<open>text.includes(p)\<close> (named \<open>includesStr\<close> here).\<close>

fun startsWith :: "string \<Rightarrow> string \<Rightarrow> bool" where
  "startsWith text [] = True"
| "startsWith [] (p # ps) = False"
| "startsWith (c # text) (p # ps) = (c = p \<and> startsWith text ps)"

definition endsWith :: "string \<Rightarrow> string \<Rightarrow> bool" where
  "endsWith text p = startsWith (rev text) (rev p)"

fun includesStr :: "string \<Rightarrow> string \<Rightarrow> bool" where
  "includesStr [] p = (p = [])"
| "includesStr (c # text) p = (startsWith (c # text) p \<or> includesStr text p)"

text \<open>\<open>word.replace(/a/g, '@')\<close>: every occurrence of one character is replaced.\<close>

definition replaceAll :: "char \<Rightarrow> char \<Rightarrow> string \<Rightarrow> string" where
  "replaceAll a b word = map (\<lambda>c. if c = a then b else c) word"

text \<open>
  \<open>[...new Set(variations)]\<close>: a Set keeps the first occurrence of every element, in
  insertion order.
\<close>

definition setAdd :: "'a list \<Rightarrow> 'a \<Rightarrow> 'a list" where
  "setAdd seen x = (if x \<in> set seen then seen else seen @ [x])"

definition newSet :: "'a list \<Rightarrow> 'a list" where
  "newSet xs = foldl setAdd [] xs"


section \<open>Regular expressions built from a word\<close>

text \<open>
  \<open>new RegExp(`\\b${badWord}\\b`, 'i')\<close> puts the word into the pattern as it is, so
  the characters of the word are read as pattern syntax. The model covers the patterns
  whose characters are ordinary characters, \<open>.\<close>, \<open>^\<close> and \<open>$\<close>. A word that
  holds one of the other syntax characters (backslash, \<open>* + ? ( ) [ ] { } |\<close>) is outside
  the modelled fragment; in JavaScript such a pattern either uses a construct not
  modelled here or makes the constructor throw a SyntaxError. \<open>compile\<close> returns
  \<open>None\<close> for it.
\<close>

datatype atom = WordB | Lit char | Dot | Bol | Eol

definition compile_char :: "char \<Rightarrow> atom option" where
  "compile_char c =
     (if c = CHR ''.'' then Some Dot
      else if c = CHR ''^'' then Some Bol
      else if c = CHR ''$'' then Some Eol
      else if c \<in> set [CHR 0x5C, CHR ''*'', CHR ''+'', CHR ''?'', CHR ''('', CHR '')'',
                        CHR ''['', CHR '']'', CHR ''{'', CHR ''}'', CHR ''|''] then None
      else Some (Lit c))"

fun compile :: "string \<Rightarrow> atom list option" where
  "compile [] = Some []"
| "compile (c # cs) =
     (case compile_char c of
        None \<Rightarrow> None
      | Some a \<Rightarrow> (case compile cs of None \<Rightarrow> None | Some as \<Rightarrow> Some (a # as)))"

text \<open>
  \<open>\w\<close> is \<open>[A-Za-z0-9_]\<close>. With the \<open>i\<close> flag two characters match when their
  canonical (upper case) forms agree; the two Latin-1 letters whose upper case form lies
  outside Latin-1 (U+00B5, U+00FF) and the sharp s are their own canonical form here, which
  keeps them apart from every other Latin-1 character, as in JavaScript. \<open>.\<close> matches
  every character but a line terminator.
\<close>

definition isWordChar :: "char \<Rightarrow> bool" where
  "isWordChar c =
     (let n = (of_char c :: nat)
      in (48 \<le> n \<and> n \<le> 57) \<or> (65 \<le> n \<and> n \<le> 90) \<or> n = 95 \<or> (97 \<le> n \<and> n \<le> 122))"

definition canonicalize :: "char \<Rightarrow> char" where
  "canonicalize c =
     (let n = (of_char c :: nat)
      in if (97 \<le> n \<and> n \<le> 122) \<or> (224 \<le> n \<and> n \<le> 254 \<and> n \<noteq> 247)
         then char_of (n - 32) else c)"

definition isLineTerminator :: "char \<Rightarrow> bool" where
  "isLineTerminator c = (c = CHR 0x0A \<or> c = CHR 0x0D)"

text \<open>
  Matching a pattern at one position: \<open>prev\<close> is the character before the position
  (\<open>None\<close> at the start of the input), \<open>rest\<close> the input from the position on.
\<close>

definition wordBefore :: "char option \<Rightarrow> bool" where
  "wordBefore prev = (case prev of None \<Rightarrow> False | Some c \<Rightarrow> isWordChar c)"

definition wordAfter :: "string \<Rightarrow> bool" where
  "wordAfter rest = (case rest of [] \<Rightarrow> False | c # _ \<Rightarrow> isWordChar c)"

fun matchAt :: "atom list \<Rightarrow> char option \<Rightarrow> string \<Rightarrow> bool" where
  "matchAt [] prev rest = True"
| "matchAt (WordB # ps) prev rest = (wordBefore prev \<noteq> wordAfter rest \<and> matchAt ps prev rest)"
| "matchAt (Bol # ps) prev rest = (prev = None \<and> matchAt ps prev rest)"
| "matchAt (Eol # ps) prev rest = (rest = [] \<and> matchAt ps prev rest)"
| "matchAt (Lit c # ps) prev [] = False"
| "matchAt (Lit c # ps) prev (d # rest) =
     (canonicalize c = canonicalize d \<and> matchAt ps (Some d) rest)"
| "matchAt (Dot # ps) prev [] = False"
| "matchAt (Dot # ps) prev (d # rest) = (\<not> isLineTerminator d \<and> matchAt ps (Some d) rest)"

text \<open>\<open>regex.test(input)\<close>: the pattern matches at some position of the input.\<close>

fun searchFrom :: "atom list \<Rightarrow> char option \<Rightarrow> string \<Rightarrow> bool" where
  "searchFrom ps prev [] = matchAt ps prev []"
| "searchFrom ps prev (d # rest) = (matchAt ps prev (d # rest) \<or> searchFrom ps (Some d) rest)"

definition regexTest :: "atom list \<Rightarrow> string \<Rightarrow> bool" where
  "regexTest ps input = searchFrom ps None input"

text \<open>
  \<open>new RegExp(`\\b${word}\\b`, 'i').test(lowerText)\<close>; \<open>None\<close> when the word is
  outside the modelled fragment.
\<close>

definition wordBoundaryTest :: "string \<Rightarrow> string \<Rightarrow> bool option" where
  "wordBoundaryTest word lowerText =
     (case compile word of
        None \<Rightarrow> None
      | Some ps \<Rightarrow> Some (regexTest (WordB # ps @ [WordB]) lowerText))"


section \<open>Bad-word detection (database/antibad.js)\<close>

text \<open>
  \<open>generateLeetVariations\<close>. The table \<open>substitutions\<close> of the source is never read;
  the variations are built by the five \<open>if\<close> blocks below it.
\<close>

definition generateLeetVariations :: "string \<Rightarrow> string list" where
  "generateLeetVariations word =
     newSet
       ([word]
        @ (if CHR ''a'' \<in> set word
           then [replaceAll CHR ''a'' CHR ''@'' word, replaceAll CHR ''a'' CHR ''4'' word] else [])
        @ (if CHR ''e'' \<in> set word then [replaceAll CHR ''e'' CHR ''3'' word] else [])
        @ (if CHR ''i'' \<in> set word
           then [replaceAll CHR ''i'' CHR ''1'' word, replaceAll CHR ''i'' CHR ''!'' word] else [])
        @ (if CHR ''s'' \<in> set word
           then [replaceAll CHR ''s'' CHR ''5'' word, replaceAll CHR ''s'' CHR ''$'' word] else [])
        @ (if CHR ''o'' \<in> set word then [replaceAll CHR ''o'' CHR ''0'' word] else []))"

text \<open>
  \<open>badWordsList.some(f)\<close> for the \<open>strict\<close> branch: the words are tried in order and
  the first match ends the search, so a later word is not compiled at all.
\<close>

fun someStrict :: "string \<Rightarrow> string list \<Rightarrow> bool option" where
  "someStrict lowerText [] = Some False"
| "someStrict lowerText (badWord # rest) =
     (case wordBoundaryTest badWord lowerText of
        None \<Rightarrow> None
      | Some True \<Rightarrow> Some True
      | Some False \<Rightarrow> someStrict lowerText rest)"

definition normalWordMatch :: "string \<Rightarrow> string \<Rightarrow> bool" where
  "normalWordMatch lowerText badWord =
     (if includesStr lowerText ('' '' @ badWord @ '' '')
         \<or> startsWith lowerText (badWord @ '' '')
         \<or> endsWith lowerText ('' '' @ badWord)
         \<or> lowerText = badWord
      then True
      else list_ex (\<lambda>variation. includesStr lowerText variation) (generateLeetVariations badWord))"

text \<open>
  \<open>containsBadWord(text, badWordsList, filterType)\<close>. The result is \<open>Some b\<close> when the
  call returns \<open>b\<close>, and \<open>None\<close> when the \<open>strict\<close> branch reaches a word outside
  the modelled pattern fragment. Every \<open>filterType\<close> other than \<open>strict\<close> and
  \<open>loose\<close> takes the \<open>normal\<close> branch (\<open>case 'normal': default:\<close>).
\<close>

definition containsBadWord :: "string \<Rightarrow> string list \<Rightarrow> string \<Rightarrow> bool option" where
  "containsBadWord text badWordsList filterType =
     (if text = [] \<or> badWordsList = [] then Some False
      else
        let lowerText = toLowerCase text
        in if filterType = ''strict'' then someStrict lowerText badWordsList
           else if filterType = ''loose''
             then Some (list_ex (\<lambda>badWord. includesStr lowerText badWord) badWordsList)
           else Some (list_ex (normalWordMatch lowerText) badWordsList))"


section \<open>Trigger-word detection (database/autoblock.js)\<close>

fun someTrigger :: "string \<Rightarrow> string list \<Rightarrow> bool option" where
  "someTrigger lowerText [] = Some False"
| "someTrigger lowerText (trigger # rest) =
     (case wordBoundaryTest trigger lowerText of
        None \<Rightarrow> None
      | Some True \<Rightarrow> Some True
      | Some False \<Rightarrow>
          if includesStr lowerText trigger then Some True else someTrigger lowerText rest)"

definition containsTriggerWord :: "string \<Rightarrow> string list \<Rightarrow> bool option" where
  "containsTriggerWord text triggerWordsList =
     (if text = [] \<or> triggerWordsList = [] then Some False
      else someTrigger (toLowerCase text) triggerWordsList)"



section \<open>Message-rate window (database/antispam.js)\<close>

text \<open>
  Every in-memory \<open>Map\<close> of the repository is keyed by the string
  \<open>`${groupJid}:${userJid}`\<close>.
\<close>

definition mkKey :: "string \<Rightarrow> string \<Rightarrow> string" where
  "mkKey groupJid userJid = groupJid @ '':'' @ userJid"

text \<open>
  \<open>userMessages\<close> maps a key to its array of timestamps. \<open>Date.now()\<close> is the
  parameter \<open>now\<close> (milliseconds, an integer).
\<close>

type_synonym message_map = "string \<rightharpoonup> int list"

definition addUserMessage :: "int \<Rightarrow> string \<Rightarrow> string \<Rightarrow> message_map \<Rightarrow> message_map" where
  "addUserMessage now groupJid userJid userMessages =
     (let key = mkKey groupJid userJid;
          timestamps = (case userMessages key of None \<Rightarrow> [] | Some ts \<Rightarrow> ts) @ [now]
      in userMessages(key \<mapsto> (if length timestamps > 20 then tl timestamps else timestamps)))"

definition getUserMessageCount ::
    "int \<Rightarrow> string \<Rightarrow> string \<Rightarrow> int \<Rightarrow> message_map \<Rightarrow> nat \<times> message_map" where
  "getUserMessageCount now groupJid userJid timeWindowSeconds userMessages =
     (let key = mkKey groupJid userJid;
          timeWindowMs = timeWindowSeconds * 1000
      in case userMessages key of
           None \<Rightarrow> (0, userMessages)
         | Some timestamps \<Rightarrow>
             (let recentMessages = filter (\<lambda>time. now - time \<le> timeWindowMs) timestamps
              in (length recentMessages, userMessages(key \<mapsto> recentMessages))))"

definition clearUserMessages :: "string \<Rightarrow> string \<Rightarrow> message_map \<Rightarrow> message_map" where
  "clearUserMessages groupJid userJid userMessages = userMessages(mkKey groupJid userJid := None)"

definition clearAllGroupMessages :: "string \<Rightarrow> message_map \<Rightarrow> message_map" where
  "clearAllGroupMessages groupJid userMessages =
     (\<lambda>key. if startsWith key (groupJid @ '':'') then None else userMessages key)"

text \<open>The part of \<open>clearAllGroupsSpamWarns\<close> that acts on \<open>userMessages\<close>.\<close>

definition clearAllGroupsMessages :: "message_map \<Rightarrow> message_map" where
  "clearAllGroupsMessages userMessages = Map.empty"

text \<open>The operations on \<open>userMessages\<close>, as one step function.\<close>

datatype rate_op =
    AddUserMessage int string string
  | GetUserMessageCount int string string int
  | ClearUserMessages string string
  | ClearAllGroupMessages string
  | ClearAllGroupsSpamWarns

fun rateStep :: "message_map \<Rightarrow> rate_op \<Rightarrow> message_map" where
  "rateStep m (AddUserMessage now g u) = addUserMessage now g u m"
| "rateStep m (GetUserMessageCount now g u w) = snd (getUserMessageCount now g u w m)"
| "rateStep m (ClearUserMessages g u) = clearUserMessages g u m"
| "rateStep m (ClearAllGroupMessages g) = clearAllGroupMessages g m"
| "rateStep m ClearAllGroupsSpamWarns = clearAllGroupsMessages m"

text \<open>The timestamps held for a key; a key that is absent holds none.\<close>

definition stored :: "message_map \<Rightarrow> string \<Rightarrow> int list" where
  "stored userMessages key = (case userMessages key of None \<Rightarrow> [] | Some ts \<Rightarrow> ts)"


section \<open>In-memory warn counters (antilink module; database/antibad.js has the same code)\<close>

type_synonym count_map = "string \<rightharpoonup> nat"

text \<open>\<open>warnCounts.get(key) || 0\<close>.\<close>

definition getWarnCount :: "count_map \<Rightarrow> string \<Rightarrow> string \<Rightarrow> nat" where
  "getWarnCount warnCounts groupJid userJid =
     (case warnCounts (mkKey groupJid userJid) of None \<Rightarrow> 0 | Some n \<Rightarrow> n)"

definition incrementWarnCount :: "string \<Rightarrow> string \<Rightarrow> count_map \<Rightarrow> nat \<times> count_map" where
  "incrementWarnCount groupJid userJid warnCounts =
     (let key = mkKey groupJid userJid;
          current = getWarnCount warnCounts groupJid userJid
      in (current + 1, warnCounts(key \<mapsto> current + 1)))"

definition resetWarnCount :: "string \<Rightarrow> string \<Rightarrow> count_map \<Rightarrow> count_map" where
  "resetWarnCount groupJid userJid warnCounts = warnCounts(mkKey groupJid userJid := None)"

definition clearAllWarns :: "string \<Rightarrow> count_map \<Rightarrow> count_map" where
  "clearAllWarns groupJid warnCounts =
     (\<lambda>key. if startsWith key (groupJid @ '':'') then None else warnCounts key)"

text \<open>\<open>getBadWarnCount\<close>, \<open>incrementBadWarnCount\<close>, \<open>resetBadWarnCount\<close> and
  \<open>clearAllBadWarns\<close> of database/antibad.js, on the map \<open>badWarnCounts\<close>.\<close>

definition getBadWarnCount :: "count_map \<Rightarrow> string \<Rightarrow> string \<Rightarrow> nat" where
  "getBadWarnCount badWarnCounts groupJid userJid =
     (case badWarnCounts (mkKey groupJid userJid) of None \<Rightarrow> 0 | Some n \<Rightarrow> n)"

definition incrementBadWarnCount :: "string \<Rightarrow> string \<Rightarrow> count_map \<Rightarrow> nat \<times> count_map" where
  "incrementBadWarnCount groupJid userJid badWarnCounts =
     (let key = mkKey groupJid userJid;
          current = getBadWarnCount badWarnCounts groupJid userJid
      in (current + 1, badWarnCounts(key \<mapsto> current + 1)))"

definition resetBadWarnCount :: "string \<Rightarrow> string \<Rightarrow> count_map \<Rightarrow> count_map" where
  "resetBadWarnCount groupJid userJid badWarnCounts =
     badWarnCounts(mkKey groupJid userJid := None)"

definition clearAllBadWarns :: "string \<Rightarrow> count_map \<Rightarrow> count_map" where
  "clearAllBadWarns groupJid badWarnCounts =
     (\<lambda>key. if startsWith key (groupJid @ '':'') then None else badWarnCounts key)"


section \<open>Policy tables and the bulk queries\<close>

text \<open>
  A settings table is a list of rows in the order of the store. Of a row the queries read
  the group, the status and \<open>updatedAt\<close> (milliseconds); the other columns are the
  extension of the record. \<open>order: [['updatedAt', 'DESC']]\<close> is a stable sort, so rows
  with equal \<open>updatedAt\<close> keep the order of the store (the order SQL gives them is the
  store's own). A failing store (the \<open>catch\<close> branches) is not modelled.
\<close>

record policy_row =
  row_groupJid :: string
  row_status :: string
  row_updatedAt :: int

definition orderByUpdatedAtDesc :: "('a policy_row_scheme) list \<Rightarrow> ('a policy_row_scheme) list" where
  "orderByUpdatedAtDesc rows = sort_key (\<lambda>r. - row_updatedAt r) rows"

definition getAllAntiSpamGroups :: "('a policy_row_scheme) list \<Rightarrow> ('a policy_row_scheme) list" where
  "getAllAntiSpamGroups AntiSpamDB =
     orderByUpdatedAtDesc (filter (\<lambda>r. row_status r = ''on'') AntiSpamDB)"

definition getAllAntiBadGroups :: "('a policy_row_scheme) list \<Rightarrow> ('a policy_row_scheme) list" where
  "getAllAntiBadGroups AntiBadDB =
     orderByUpdatedAtDesc (filter (\<lambda>r. row_status r = ''on'') AntiBadDB)"

definition getAllAntiLinkGroups :: "('a policy_row_scheme) list \<Rightarrow> ('a policy_row_scheme) list" where
  "getAllAntiLinkGroups AntiLinkDB =
     orderByUpdatedAtDesc (filter (\<lambda>r. row_status r = ''on'') AntiLinkDB)"

text \<open>The table of database/groupevents.js has a boolean column \<open>enabled\<close>.\<close>

record groupevents_row =
  ge_groupJid :: string
  ge_enabled :: bool
  ge_updatedAt :: int

definition getAllGroupEventsGroups :: "groupevents_row list \<Rightarrow> groupevents_row list" where
  "getAllGroupEventsGroups GroupEventsDB =
     sort_key (\<lambda>r. - ge_updatedAt r) (filter (\<lambda>r. ge_enabled r) GroupEventsDB)"


section \<open>Warn tracker (database/warn.js)\<close>

record warn_settings = policy_row +
  warn_limit :: int
  action :: string
  exempt_admins :: bool
  auto_reset_days :: int

record warn =
  w_id :: nat
  w_groupJid :: string
  w_userJid :: string
  w_warnedBy :: string
  w_reason :: string
  w_createdAt :: int

record cached_warn =
  c_id :: nat
  c_warnedBy :: string
  c_reason :: string
  c_createdAt :: int

text \<open>
  The state: the two tables of the persistent store, the auto-increment counter of the
  \<open>warns\<close> table, and the in-memory \<open>warnCache\<close>. The store is modelled as always
  answering; the \<open>catch\<close> branches for a failing store are not modelled.
\<close>

record warn_state =
  WarnSettingsDB :: "warn_settings list"
  WarnsDB :: "warn list"
  nextWarnId :: nat
  warnCache :: "string \<rightharpoonup> cached_warn list"

definition toCached :: "warn \<Rightarrow> cached_warn" where
  "toCached w =
     \<lparr>c_id = w_id w, c_warnedBy = w_warnedBy w, c_reason = w_reason w,
      c_createdAt = w_createdAt w\<rparr>"

definition cachePush :: "string \<Rightarrow> cached_warn \<Rightarrow> (string \<rightharpoonup> cached_warn list) \<Rightarrow> (string \<rightharpoonup> cached_warn list)" where
  "cachePush key entry cache =
     cache(key \<mapsto> (case cache key of None \<Rightarrow> [] | Some ws \<Rightarrow> ws) @ [entry])"

text \<open>\<open>refreshWarnCache\<close>: \<open>findAll()\<close> without an order gives the rows in the order
  of the store.\<close>

definition refreshWarnCache :: "warn_state \<Rightarrow> warn_state" where
  "refreshWarnCache s =
     s\<lparr>warnCache :=
         foldl (\<lambda>cache w. cachePush (mkKey (w_groupJid w) (w_userJid w)) (toCached w) cache)
           Map.empty (WarnsDB s)\<rparr>"

text \<open>\<open>getWarnSettings\<close>: \<open>null\<close> for an empty group id, else find-or-create with the
  defaults (\<open>status\<close> takes the default of its column, \<open>on\<close>).\<close>

definition getWarnSettings :: "int \<Rightarrow> string \<Rightarrow> warn_state \<Rightarrow> warn_settings option \<times> warn_state" where
  "getWarnSettings now groupJid s =
     (if groupJid = [] then (None, s)
      else case find (\<lambda>r. row_groupJid r = groupJid) (WarnSettingsDB s) of
             Some settings \<Rightarrow> (Some settings, s)
           | None \<Rightarrow>
               (let settings =
                      \<lparr>row_groupJid = groupJid, row_status = ''on'', row_updatedAt = now,
                       warn_limit = 3, action = ''kick'', exempt_admins = True,
                       auto_reset_days = 7\<rparr>
                in (Some settings, s\<lparr>WarnSettingsDB := WarnSettingsDB s @ [settings]\<rparr>)))"

definition getAllWarnGroups :: "warn_state \<Rightarrow> warn_settings list" where
  "getAllWarnGroups s = orderByUpdatedAtDesc (WarnSettingsDB s)"

definition getUserWarnCount :: "warn_state \<Rightarrow> string \<Rightarrow> string \<Rightarrow> nat" where
  "getUserWarnCount s groupJid userJid =
     (case warnCache s (mkKey groupJid userJid) of
        Some ws \<Rightarrow> length ws
      | None \<Rightarrow>
          length (filter (\<lambda>w. w_groupJid w = groupJid \<and> w_userJid w = userJid) (WarnsDB s)))"

datatype error = TypeError

record warn_result =
  r_warnCount :: nat
  r_warnId :: nat
  r_limit :: int

text \<open>
  \<open>addWarn\<close>. The row is created and the cache is updated before \<open>settings.warn_limit\<close>
  is read; when \<open>settings\<close> is \<open>null\<close> that read throws, and the call returns
  \<open>success: false\<close> (\<open>Inl\<close>) with the row already stored.
\<close>

definition addWarn ::
    "int \<Rightarrow> string \<Rightarrow> string \<Rightarrow> string \<Rightarrow> string \<Rightarrow> warn_state
     \<Rightarrow> (error + warn_result) \<times> warn_state" where
  "addWarn now groupJid userJid warnedBy reason s =
     (let (settings, s1) = getWarnSettings now groupJid s;
          warn = \<lparr>w_id = nextWarnId s1, w_groupJid = groupJid, w_userJid = userJid,
                  w_warnedBy = warnedBy, w_reason = reason, w_createdAt = now\<rparr>;
          s2 = s1\<lparr>WarnsDB := WarnsDB s1 @ [warn], nextWarnId := nextWarnId s1 + 1\<rparr>;
          key = mkKey groupJid userJid;
          s3 = s2\<lparr>warnCache := cachePush key (toCached warn) (warnCache s2)\<rparr>;
          warnCount = getUserWarnCount s3 groupJid userJid
      in case settings of
           None \<Rightarrow> (Inl TypeError, s3)
         | Some st \<Rightarrow>
             (Inr \<lparr>r_warnCount = warnCount, r_warnId = w_id warn, r_limit = warn_limit st\<rparr>,
              s3))"

definition getUserWarns :: "warn_state \<Rightarrow> string \<Rightarrow> string \<Rightarrow> cached_warn list" where
  "getUserWarns s groupJid userJid =
     (case warnCache s (mkKey groupJid userJid) of
        Some ws \<Rightarrow> ws
      | None \<Rightarrow>
          map toCached
            (sort_key (\<lambda>w. - w_createdAt w)
               (filter (\<lambda>w. w_groupJid w = groupJid \<and> w_userJid w = userJid) (WarnsDB s))))"


text \<open>
  \<open>autoResetOldWarns\<close>. \<open>now.setDate(now.getDate() - days)\<close> moves the Date object
  \<open>now\<close> itself back by \<open>days\<close> days and returns its new time, so the next pass of the
  loop starts from the cutoff of the pass before. A day is taken as 86400000 ms (no
  daylight-saving shift).

  The filter of the delete is built with the key \<open>[DataTypes.Op.lt]\<close>. The loop takes
  the value of \<open>DataTypes.Op\<close> as its parameter \<open>Op\<close>: \<open>None\<close> when it is
  \<open>undefined\<close>, so that reading \<open>.lt\<close> of it throws a TypeError before \<open>destroy\<close>
  is called, and \<open>Some lt\<close> when it holds the comparison the key stands for.
\<close>

definition msPerDay :: int where
  "msPerDay = 86400000"

fun resetLoop ::
    "(int \<Rightarrow> int \<Rightarrow> bool) option \<Rightarrow> warn_settings list \<Rightarrow> int \<Rightarrow> warn list
     \<Rightarrow> error + warn list" where
  "resetLoop Op [] now warns = Inr warns"
| "resetLoop Op (setting # settings) now warns =
     (let days = auto_reset_days setting;
          cutoffDate = now - days * msPerDay
      in case Op of
           None \<Rightarrow> Inl TypeError
         | Some lt \<Rightarrow>
             resetLoop Op settings cutoffDate
               (filter (\<lambda>w. \<not> (w_groupJid w = row_groupJid setting \<and> lt (w_createdAt w) cutoffDate))
                  warns))"

text \<open>
  \<open>DataTypes\<close> is imported from the sequelize library, which is not part of the
  repository. It holds the column types only (the operators are \<open>Sequelize.Op\<close>), so
  \<open>DataTypes.Op\<close> is \<open>undefined\<close>.
\<close>

definition DataTypes_Op :: "(int \<Rightarrow> int \<Rightarrow> bool) option" where
  "DataTypes_Op = None"

text \<open>
  The body of \<open>autoResetOldWarns\<close> is one \<open>try\<close> block: an error thrown in the loop is
  logged by the \<open>catch\<close> branch and the function returns, with \<open>refreshWarnCache\<close>
  skipped and the state as it was.
\<close>

definition autoResetOldWarns :: "int \<Rightarrow> warn_state \<Rightarrow> warn_state" where
  "autoResetOldWarns now s =
     (case resetLoop DataTypes_Op (WarnSettingsDB s) now (WarnsDB s) of
        Inl e \<Rightarrow> s
      | Inr warns \<Rightarrow> refreshWarnCache (s\<lparr>WarnsDB := warns\<rparr>))"


section \<open>Notions of the specification\<close>

text \<open>
  The leetspeak table as the specification words it: one entry for each substitution of
  a single letter.
\<close>

definition leetTable :: "(char \<times> char) list" where
  "leetTable =
     [(CHR ''a'', CHR ''@''), (CHR ''a'', CHR ''4''), (CHR ''e'', CHR ''3''),
      (CHR ''i'', CHR ''1''), (CHR ''i'', CHR ''!''), (CHR ''s'', CHR ''5''),
      (CHR ''s'', CHR ''$''), (CHR ''o'', CHR ''0'')]"

text \<open>
  The variants of a word: the word itself and, for every entry of the table whose
  letter is in the word, the word with every occurrence of that one letter replaced.
\<close>

definition specLeetVariants :: "string \<Rightarrow> string set" where
  "specLeetVariants word =
     insert word {replaceAll l r word | l r. (l, r) \<in> set leetTable \<and> l \<in> set word}"

text \<open>
  A plain word character: a lower-case letter, a digit or the underscore. A word occurs in
  a text at a token boundary when the text holds it with no \<open>\w\<close> character right
  before it and none right after it.
\<close>

definition isPlainWordChar :: "char \<Rightarrow> bool" where
  "isPlainWordChar c =
     (let n = (of_char c :: nat)
      in (48 \<le> n \<and> n \<le> 57) \<or> n = 95 \<or> (97 \<le> n \<and> n \<le> 122))"

definition lastChar :: "string \<Rightarrow> char option" where
  "lastChar pre = (if pre = [] then None else Some (last pre))"

definition occursAtBoundary :: "string \<Rightarrow> string \<Rightarrow> bool" where
  "occursAtBoundary word text =
     (\<exists>pre post. text = pre @ word @ post \<and> \<not> wordBefore (lastChar pre) \<and> \<not> wordAfter post)"


text \<open>The number of entries the cache holds under the key of a pair.\<close>

definition cachedCount :: "warn_state \<Rightarrow> string \<Rightarrow> string \<Rightarrow> nat" where
  "cachedCount s groupJid userJid =
     (case warnCache s (mkKey groupJid userJid) of None \<Rightarrow> 0 | Some ws \<Rightarrow> length ws)"



text \<open>Rows and states used as concrete inputs below.\<close>

definition settingsRow :: "string \<Rightarrow> string \<Rightarrow> int \<Rightarrow> int \<Rightarrow> warn_settings" where
  "settingsRow groupJid status updatedAt days =
     \<lparr>row_groupJid = groupJid, row_status = status, row_updatedAt = updatedAt,
      warn_limit = 3, action = ''kick'', exempt_admins = True, auto_reset_days = days\<rparr>"

definition emptyWarnState :: warn_state where
  "emptyWarnState = \<lparr>WarnSettingsDB = [], WarnsDB = [], nextWarnId = 1, warnCache = Map.empty\<rparr>"


section \<open>Text matching: proofs\<close>

lemma startsWith_prefix: "startsWith t p \<longleftrightarrow> prefix p t"
  by (induction t p rule: startsWith.induct) auto

lemma endsWith_suffix: "endsWith t p \<longleftrightarrow> suffix p t"
  by (simp add: endsWith_def startsWith_prefix suffix_to_prefix)

lemma includesStr_sublist: "includesStr t p \<longleftrightarrow> sublist p t"
proof (induction t)
  case Nil
  then show ?case by auto
next
  case (Cons c t)
  then show ?case
    by (simp add: startsWith_prefix sublist_Cons_right del: startsWith.simps)
qed

lemma set_foldl_setAdd: "set (foldl setAdd acc xs) = set acc \<union> set xs"
  by (induction xs arbitrary: acc) (auto simp: setAdd_def)

lemma distinct_foldl_setAdd: "distinct acc \<Longrightarrow> distinct (foldl setAdd acc xs)"
  by (induction xs arbitrary: acc) (auto simp: setAdd_def)

lemma set_newSet: "set (newSet xs) = set xs"
  by (simp add: newSet_def set_foldl_setAdd)

lemma distinct_newSet: "distinct (newSet xs)"
  by (simp add: newSet_def distinct_foldl_setAdd)

lemma specLeetVariants_unfold: "specLeetVariants word =
   insert word (\<Union>(l, r)\<in>set leetTable. (if l \<in> set word then {replaceAll l r word} else {}))"
  unfolding specLeetVariants_def
  by (rule arg_cong[where f = "insert word"]) (fastforce split: if_splits)

lemma if_pair: "(if c then {x, y} else {}) = (if c then {x} else {}) \<union> (if c then {y} else {})"
  by auto

lemma set_if_list: "set (if b then xs else ys) = (if b then set xs else set ys)"
  by simp

lemma set_generateLeetVariations: "set (generateLeetVariations word) = specLeetVariants word"
  unfolding generateLeetVariations_def set_newSet specLeetVariants_unfold leetTable_def
  apply (simp only: set_append set_if_list list.set UN_insert UN_empty case_prod_conv
      Un_empty_right Un_empty_left)
  apply (simp only: if_pair Un_ac)
  apply (simp only: Un_insert_left Un_empty_left)
  done

lemma word_in_variants: "word \<in> specLeetVariants word"
  by (simp add: specLeetVariants_def)

lemma normalWordMatch_iff:
  "normalWordMatch lowerText badWord \<longleftrightarrow> (\<exists>v\<in>specLeetVariants badWord. sublist v lowerText)"
proof -
  have direct: "sublist badWord lowerText"
    if "includesStr lowerText ('' '' @ badWord @ '' '')
         \<or> startsWith lowerText (badWord @ '' '')
         \<or> endsWith lowerText ('' '' @ badWord)
         \<or> lowerText = badWord"
    using that
  proof (elim disjE)
    assume "includesStr lowerText ('' '' @ badWord @ '' '')"
    then have "sublist ('' '' @ badWord @ '' '') lowerText" by (simp add: includesStr_sublist)
    moreover have "sublist badWord ('' '' @ badWord @ '' '')" by (rule sublist_appendI)
    ultimately show ?thesis by (rule sublist_order.order_trans[rotated])
  next
    assume "startsWith lowerText (badWord @ '' '')"
    then have "prefix (badWord @ '' '') lowerText" by (simp add: startsWith_prefix)
    then have "prefix badWord lowerText" by (rule append_prefixD)
    then show ?thesis by (rule prefix_imp_sublist)
  next
    assume "endsWith lowerText ('' '' @ badWord)"
    then have "suffix ('' '' @ badWord) lowerText" by (simp add: endsWith_suffix)
    then have "suffix badWord lowerText" by (rule suffix_appendD)
    then show ?thesis by (rule suffix_imp_sublist)
  next
    assume "lowerText = badWord"
    then show ?thesis by simp
  qed
  show ?thesis
  proof (cases "includesStr lowerText ('' '' @ badWord @ '' '')
         \<or> startsWith lowerText (badWord @ '' '')
         \<or> endsWith lowerText ('' '' @ badWord)
         \<or> lowerText = badWord")
    case True
    then have "sublist badWord lowerText" by (rule direct)
    then have "\<exists>v\<in>specLeetVariants badWord. sublist v lowerText"
      using word_in_variants by blast
    with True show ?thesis by (simp add: normalWordMatch_def)
  next
    case False
    then show ?thesis
      by (simp add: normalWordMatch_def list_ex_iff includesStr_sublist
          set_generateLeetVariations)
  qed
qed

lemma containsBadWord_normal:
  "text \<noteq> [] \<Longrightarrow>
   containsBadWord text badWordsList ''normal'' =
     Some (\<exists>w\<in>set badWordsList. \<exists>v\<in>specLeetVariants w. sublist v (toLowerCase text))"
  by (auto simp: containsBadWord_def Let_def list_ex_iff normalWordMatch_iff)

text \<open>
  C10. Applied to an empty text or to an empty word list, \<open>containsBadWord\<close> (for every
  filter type) and \<open>containsTriggerWord\<close> return \<open>false\<close>: the guard
  \<open>!text || !list.length\<close> returns before any pattern is built, so the call does not
  throw.
\<close>

theorem empty_input_no_match:
  "containsBadWord [] badWordsList filterType = Some False
   \<and> containsBadWord text [] filterType = Some False
   \<and> containsTriggerWord [] triggerWordsList = Some False
   \<and> containsTriggerWord text [] = Some False"
  by (simp add: containsBadWord_def containsTriggerWord_def)

text \<open>
  C4, as amended. The list \<open>generateLeetVariations\<close> returns has no duplicates and
  holds exactly the variants of the specification: the word, and for each table entry
  whose letter is in the word the word with that one letter replaced throughout (never
  two letters at once). Under \<open>normal\<close> a non-empty text matches exactly when a variant
  of some listed word is a substring of the lower-cased text; and
  \<open>containsBadWord("pl4ntkiller", ["plant"], "normal")\<close> is \<open>true\<close>. The text has to be
  non-empty: on the empty text the guard returns \<open>false\<close> first.
\<close>

theorem leet_variants_normal_match:
  "set (generateLeetVariations word) = specLeetVariants word
   \<and> distinct (generateLeetVariations word)
   \<and> (text \<noteq> [] \<longrightarrow>
        containsBadWord text badWordsList ''normal'' =
          Some (\<exists>w\<in>set badWordsList. \<exists>v\<in>set (generateLeetVariations w).
                  sublist v (toLowerCase text)))
   \<and> containsBadWord ''pl4ntkiller'' [''plant''] ''normal'' = Some True"
proof (intro conjI impI)
  show "set (generateLeetVariations word) = specLeetVariants word"
    by (rule set_generateLeetVariations)
next
  show "distinct (generateLeetVariations word)"
    by (simp add: generateLeetVariations_def distinct_newSet)
next
  assume "text \<noteq> []"
  then show "containsBadWord text badWordsList ''normal'' =
          Some (\<exists>w\<in>set badWordsList. \<exists>v\<in>set (generateLeetVariations w).
                  sublist v (toLowerCase text))"
    by (simp add: containsBadWord_normal set_generateLeetVariations)
next
  show "containsBadWord ''pl4ntkiller'' [''plant''] ''normal'' = Some True"
    by code_simp
qed

theorem leet_variants_normal_match_witness:
  "''p@ss it'' \<noteq> []
   \<and> containsBadWord ''p@ss it'' [''pass''] ''normal'' = Some True
   \<and> (\<exists>w\<in>set [''pass'']. \<exists>v\<in>set (generateLeetVariations w).
         sublist v (toLowerCase ''p@ss it''))
   \<and> generateLeetVariations ''pass'' = [''pass'', ''p@ss'', ''p4ss'', ''pa55'', ''pa$$'']"
proof -
  have nonempty: "''p@ss it'' \<noteq> []" by simp
  have run: "containsBadWord ''p@ss it'' [''pass''] ''normal'' = Some True" by code_simp
  have vars: "generateLeetVariations ''pass'' = [''pass'', ''p@ss'', ''p4ss'', ''pa55'', ''pa$$'']"
    by code_simp
  have "containsBadWord ''p@ss it'' [''pass''] ''normal'' =
          Some (\<exists>w\<in>set [''pass'']. \<exists>v\<in>set (generateLeetVariations w).
                  sublist v (toLowerCase ''p@ss it''))"
    using leet_variants_normal_match [of "''pass''" "''p@ss it''" "[''pass'']"] nonempty
    by blast
  with run have "\<exists>w\<in>set [''pass'']. \<exists>v\<in>set (generateLeetVariations w).
                  sublist v (toLowerCase ''p@ss it'')"
    by simp
  with nonempty run vars show ?thesis by blast
qed

text \<open>
  Without the condition on the text the statement fails: the empty word is a variant of
  itself and a substring of the empty text, and the call returns \<open>false\<close>.
\<close>

theorem normal_empty_text_counterexample:
  "containsBadWord [] [[]] ''normal'' = Some False
   \<and> [] \<in> set (generateLeetVariations [])
   \<and> sublist [] (toLowerCase [])"
  by (simp add: containsBadWord_def set_generateLeetVariations specLeetVariants_def)

text \<open>
  Words made of plain word characters hold no pattern syntax, and for them the \<open>strict\<close>
  branch is the search for the word between token boundaries in the lower-cased text.
\<close>

lemma of_char_char_of_small: "n < 256 \<Longrightarrow> (of_char (char_of n :: char) :: nat) = n"
  by simp

lemma toLowerCase_char_idem: "toLowerCase_char (toLowerCase_char c) = toLowerCase_char c"
proof (cases "(65 \<le> (of_char c :: nat) \<and> (of_char c :: nat) \<le> 90)
     \<or> (192 \<le> (of_char c :: nat) \<and> (of_char c :: nat) \<le> 222 \<and> (of_char c :: nat) \<noteq> 215)")
  case True
  let ?n = "of_char c :: nat"
  have low: "toLowerCase_char c = char_of (?n + 32)"
    using True by (simp add: toLowerCase_char_def Let_def)
  have "?n + 32 < 256" using True by arith
  then have val: "(of_char (char_of (?n + 32) :: char) :: nat) = ?n + 32"
    by (rule of_char_char_of_small)
  have "\<not> ((65 \<le> ?n + 32 \<and> ?n + 32 \<le> 90)
     \<or> (192 \<le> ?n + 32 \<and> ?n + 32 \<le> 222 \<and> ?n + 32 \<noteq> 215))"
    using True by arith
  then have "toLowerCase_char (char_of (?n + 32)) = char_of (?n + 32)"
    unfolding toLowerCase_char_def Let_def val by (rule if_not_P)
  then show ?thesis by (simp only: low)
next
  case False
  then have "toLowerCase_char c = c"
    unfolding toLowerCase_char_def Let_def by (rule if_not_P)
  then show ?thesis by simp
qed


lemma plain_not_special:
  "isPlainWordChar c \<Longrightarrow>
   c \<notin> set [CHR ''.'', CHR ''^'', CHR ''$'', CHR 0x5C, CHR ''*'', CHR ''+'', CHR ''?'', CHR ''('',
              CHR '')'', CHR ''['', CHR '']'', CHR ''{'', CHR ''}'', CHR ''|'']"
  by (auto simp: isPlainWordChar_def Let_def)

lemma plain_compile_char: "isPlainWordChar c \<Longrightarrow> compile_char c = Some (Lit c)"
  using plain_not_special [of c] by (simp add: compile_char_def)

lemma plain_compile: "list_all isPlainWordChar w \<Longrightarrow> compile w = Some (map Lit w)"
  by (induction w) (simp_all add: plain_compile_char)

lemma plain_isWordChar: "isPlainWordChar c \<Longrightarrow> isWordChar c"
  unfolding isPlainWordChar_def isWordChar_def Let_def by blast

lemma canonical_codes:
  fixes n m :: nat
  assumes "(48 \<le> n \<and> n \<le> 57) \<or> n = 95 \<or> (97 \<le> n \<and> n \<le> 122)"
    and "\<not> (65 \<le> m \<and> m \<le> 90)"
    and "(if 97 \<le> n \<and> n \<le> 122 then n - 32 else n) =
      (if (97 \<le> m \<and> m \<le> 122) \<or> (224 \<le> m \<and> m \<le> 254 \<and> m \<noteq> 247) then m - 32 else m)"
  shows "n = m"
  using assms by (auto split: if_splits)

lemma plain_canonical:
  assumes "isPlainWordChar c" and "toLowerCase_char d = d"
  shows "canonicalize c = canonicalize d \<longleftrightarrow> c = d"
proof
  assume eq: "canonicalize c = canonicalize d"
  let ?n = "of_char c :: nat" and ?m = "of_char d :: nat"
  have mlt: "?m < 256" and nlt: "?n < 256" by simp_all
  have lowered: "\<not> (65 \<le> ?m \<and> ?m \<le> 90)"
  proof
    assume up: "65 \<le> ?m \<and> ?m \<le> 90"
    then have "toLowerCase_char d = char_of (?m + 32)" by (simp add: toLowerCase_char_def Let_def)
    with assms(2) have "(of_char (char_of (?m + 32) :: char) :: nat) = ?m" by simp
    moreover have "(of_char (char_of (?m + 32) :: char) :: nat) = ?m + 32"
      using up by (intro of_char_char_of_small) arith
    ultimately show False by arith
  qed
  have cn: "(of_char (canonicalize c) :: nat) = (if 97 \<le> ?n \<and> ?n \<le> 122 then ?n - 32 else ?n)"
  proof (cases "97 \<le> ?n \<and> ?n \<le> 122")
    case True
    then have "canonicalize c = char_of (?n - 32)" by (simp add: canonicalize_def Let_def)
    moreover have "(of_char (char_of (?n - 32) :: char) :: nat) = ?n - 32"
      using True by (intro of_char_char_of_small) arith
    ultimately show ?thesis using True by auto
  next
    case False
    moreover have "\<not> (224 \<le> ?n \<and> ?n \<le> 254 \<and> ?n \<noteq> 247)"
      using assms(1) unfolding isPlainWordChar_def Let_def by arith
    ultimately have "\<not> ((97 \<le> ?n \<and> ?n \<le> 122) \<or> (224 \<le> ?n \<and> ?n \<le> 254 \<and> ?n \<noteq> 247))"
      by blast
    then have "canonicalize c = c"
      unfolding canonicalize_def Let_def by (rule if_not_P)
    with False show ?thesis by auto
  qed
  have cm: "(of_char (canonicalize d) :: nat) =
      (if (97 \<le> ?m \<and> ?m \<le> 122) \<or> (224 \<le> ?m \<and> ?m \<le> 254 \<and> ?m \<noteq> 247) then ?m - 32 else ?m)"
  proof (cases "(97 \<le> ?m \<and> ?m \<le> 122) \<or> (224 \<le> ?m \<and> ?m \<le> 254 \<and> ?m \<noteq> 247)")
    case True
    then have "canonicalize d = char_of (?m - 32)" by (simp add: canonicalize_def Let_def)
    moreover have "(of_char (char_of (?m - 32) :: char) :: nat) = ?m - 32"
      using mlt by (intro of_char_char_of_small) arith
    ultimately show ?thesis using True by auto
  next
    case False
    then have "canonicalize d = d"
      unfolding canonicalize_def Let_def by (rule if_not_P)
    with False show ?thesis by auto
  qed
  have plain: "(48 \<le> ?n \<and> ?n \<le> 57) \<or> ?n = 95 \<or> (97 \<le> ?n \<and> ?n \<le> 122)"
    using assms(1) unfolding isPlainWordChar_def Let_def .
  have "(if 97 \<le> ?n \<and> ?n \<le> 122 then ?n - 32 else ?n) =
      (if (97 \<le> ?m \<and> ?m \<le> 122) \<or> (224 \<le> ?m \<and> ?m \<le> 254 \<and> ?m \<noteq> 247) then ?m - 32 else ?m)"
    using eq cn cm by simp
  with plain lowered have "?n = ?m"
    by (rule canonical_codes)
  then show "c = d" by simp
next
  assume "c = d" then show "canonicalize c = canonicalize d" by simp
qed

lemma lowered_toLowerCase: "list_all (\<lambda>d. toLowerCase_char d = d) (toLowerCase text)"
  by (simp add: toLowerCase_def list_all_iff toLowerCase_char_idem)

lemma matchAt_lits:
  assumes "list_all isPlainWordChar w" and "list_all (\<lambda>d. toLowerCase_char d = d) rest"
  shows "matchAt (map Lit w @ ps) prev rest \<longleftrightarrow>
         (\<exists>post. rest = w @ post \<and> matchAt ps (if w = [] then prev else Some (last w)) post)"
  using assms
proof (induction w arbitrary: prev rest)
  case Nil
  then show ?case by simp
next
  case (Cons c w)
  show ?case
  proof (cases rest)
    case Nil
    then show ?thesis by simp
  next
    case (Cons d rest')
    have plain: "isPlainWordChar c" and plains: "list_all isPlainWordChar w"
      using Cons.prems(1) by simp_all
    have low: "toLowerCase_char d = d" and lows: "list_all (\<lambda>d. toLowerCase_char d = d) rest'"
      using Cons.prems(2) Cons by simp_all
    have IH: "matchAt (map Lit w @ ps) (Some d) rest' \<longleftrightarrow>
         (\<exists>post. rest' = w @ post \<and> matchAt ps (if w = [] then Some d else Some (last w)) post)"
      using plains lows by (rule Cons.IH)
    have "matchAt (map Lit (c # w) @ ps) prev rest \<longleftrightarrow>
        (c = d \<and> matchAt (map Lit w @ ps) (Some d) rest')"
      using plain_canonical [OF plain low] Cons by simp
    also have "\<dots> \<longleftrightarrow> (c = d \<and> (\<exists>post. rest' = w @ post
            \<and> matchAt ps (if w = [] then Some d else Some (last w)) post))"
      using IH by simp
    also have "\<dots> \<longleftrightarrow> (\<exists>post. rest = (c # w) @ post
            \<and> matchAt ps (if c # w = [] then prev else Some (last (c # w))) post)"
      using Cons by auto
    finally show ?thesis .
  qed
qed

lemma searchFrom_split:
  "searchFrom ps prev t \<longleftrightarrow>
     (\<exists>pre post. t = pre @ post \<and> matchAt ps (if pre = [] then prev else Some (last pre)) post)"
proof (induction t arbitrary: prev)
  case Nil
  then show ?case by simp
next
  case (Cons d t)
  have "searchFrom ps prev (d # t) \<longleftrightarrow> matchAt ps prev (d # t) \<or> searchFrom ps (Some d) t"
    by simp
  also have "\<dots> \<longleftrightarrow> matchAt ps prev (d # t)
      \<or> (\<exists>pre post. t = pre @ post \<and> matchAt ps (if pre = [] then Some d else Some (last pre)) post)"
    using Cons.IH by simp
  also have "\<dots> \<longleftrightarrow> (\<exists>pre post. d # t = pre @ post
      \<and> matchAt ps (if pre = [] then prev else Some (last pre)) post)"
  proof
    assume "matchAt ps prev (d # t)
      \<or> (\<exists>pre post. t = pre @ post \<and> matchAt ps (if pre = [] then Some d else Some (last pre)) post)"
    then show "\<exists>pre post. d # t = pre @ post
      \<and> matchAt ps (if pre = [] then prev else Some (last pre)) post"
    proof
      assume "matchAt ps prev (d # t)"
      then have "d # t = [] @ (d # t) \<and> matchAt ps (if [] = [] then prev else Some (last [])) (d # t)"
        by simp
      then show ?thesis by blast
    next
      assume "\<exists>pre post. t = pre @ post \<and> matchAt ps (if pre = [] then Some d else Some (last pre)) post"
      then obtain pre post where "t = pre @ post"
        and "matchAt ps (if pre = [] then Some d else Some (last pre)) post" by blast
      then have "d # t = (d # pre) @ post
          \<and> matchAt ps (if d # pre = [] then prev else Some (last (d # pre))) post"
        by (cases pre) simp_all
      then show ?thesis by blast
    qed
  next
    assume "\<exists>pre post. d # t = pre @ post
      \<and> matchAt ps (if pre = [] then prev else Some (last pre)) post"
    then obtain pre post where split: "d # t = pre @ post"
      and m: "matchAt ps (if pre = [] then prev else Some (last pre)) post" by blast
    show "matchAt ps prev (d # t)
      \<or> (\<exists>pre post. t = pre @ post \<and> matchAt ps (if pre = [] then Some d else Some (last pre)) post)"
    proof (cases pre)
      case Nil
      then show ?thesis using split m by simp
    next
      case (Cons e pre')
      then have "t = pre' @ post" and "e = d" using split by simp_all
      moreover have "matchAt ps (if pre' = [] then Some d else Some (last pre')) post"
        using m Cons \<open>e = d\<close> by (simp split: if_splits)
      ultimately show ?thesis by blast
    qed
  qed
  finally show ?case .
qed

lemma boundary_pattern:
  assumes "w \<noteq> []" and "list_all isPlainWordChar w"
    and "list_all (\<lambda>d. toLowerCase_char d = d) rest"
  shows "matchAt (WordB # map Lit w @ [WordB]) prev rest \<longleftrightarrow>
         (\<exists>post. rest = w @ post \<and> \<not> wordBefore prev \<and> \<not> wordAfter post)"
proof -
  have first: "isWordChar (hd w)" and final: "isWordChar (last w)"
    using assms(1,2) by (auto simp: list_all_iff plain_isWordChar)
  have after: "wordAfter (w @ post)" for post
    using assms(1) first by (cases w) (simp_all add: wordAfter_def)
  have "matchAt (WordB # map Lit w @ [WordB]) prev rest \<longleftrightarrow>
      (wordBefore prev \<noteq> wordAfter rest \<and> matchAt (map Lit w @ [WordB]) prev rest)"
    by simp
  also have "\<dots> \<longleftrightarrow> (wordBefore prev \<noteq> wordAfter rest
      \<and> (\<exists>post. rest = w @ post \<and> matchAt [WordB] (Some (last w)) post))"
    using matchAt_lits [OF assms(2,3), of "[WordB]" prev] assms(1) by simp
  also have "\<dots> \<longleftrightarrow> (\<exists>post. rest = w @ post \<and> \<not> wordBefore prev \<and> \<not> wordAfter post)"
    using after final by (auto simp: wordBefore_def)
  finally show ?thesis .
qed

lemma regexTest_boundary:
  assumes "w \<noteq> []" and "list_all isPlainWordChar w"
    and "list_all (\<lambda>d. toLowerCase_char d = d) t"
  shows "regexTest (WordB # map Lit w @ [WordB]) t \<longleftrightarrow> occursAtBoundary w t"
proof
  assume "regexTest (WordB # map Lit w @ [WordB]) t"
  then obtain pre rest where t: "t = pre @ rest"
    and m: "matchAt (WordB # map Lit w @ [WordB]) (if pre = [] then None else Some (last pre)) rest"
    unfolding regexTest_def searchFrom_split by blast
  have "list_all (\<lambda>d. toLowerCase_char d = d) rest"
    using assms(3) t by simp
  then obtain post where "rest = w @ post" "\<not> wordBefore (lastChar pre)" "\<not> wordAfter post"
    using m boundary_pattern [OF assms(1,2)] unfolding lastChar_def by blast
  then show "occursAtBoundary w t"
    unfolding occursAtBoundary_def using t by blast
next
  assume "occursAtBoundary w t"
  then obtain pre post where t: "t = pre @ w @ post"
    and b: "\<not> wordBefore (lastChar pre)" "\<not> wordAfter post"
    unfolding occursAtBoundary_def by blast
  have "list_all (\<lambda>d. toLowerCase_char d = d) (w @ post)"
    using assms(3) t by simp
  then have "matchAt (WordB # map Lit w @ [WordB]) (if pre = [] then None else Some (last pre)) (w @ post)"
    using boundary_pattern [OF assms(1,2), of "w @ post"] b unfolding lastChar_def by blast
  then show "regexTest (WordB # map Lit w @ [WordB]) t"
    unfolding regexTest_def searchFrom_split using t by blast
qed

lemma wordBoundaryTest_plain:
  assumes "w \<noteq> []" and "list_all isPlainWordChar w"
    and "list_all (\<lambda>d. toLowerCase_char d = d) t"
  shows "wordBoundaryTest w t = Some (occursAtBoundary w t)"
  using regexTest_boundary [OF assms] by (simp add: wordBoundaryTest_def plain_compile [OF assms(2)])

lemma someStrict_plain:
  assumes "list_all (\<lambda>w. w \<noteq> [] \<and> list_all isPlainWordChar w) ws"
    and "list_all (\<lambda>d. toLowerCase_char d = d) t"
  shows "someStrict t ws = Some (list_ex (\<lambda>w. occursAtBoundary w t) ws)"
  using assms(1)
proof (induction ws)
  case Nil
  then show ?case by simp
next
  case (Cons w ws)
  then have "wordBoundaryTest w t = Some (occursAtBoundary w t)"
    using wordBoundaryTest_plain assms(2) by simp
  moreover have "someStrict t ws = Some (list_ex (\<lambda>w. occursAtBoundary w t) ws)"
    using Cons by simp
  ultimately show ?case by (cases "occursAtBoundary w t") simp_all
qed

lemma not_occurs_in_empty: "w \<noteq> [] \<Longrightarrow> \<not> occursAtBoundary w []"
  by (simp add: occursAtBoundary_def)

lemma strict_plain_words:
  assumes "list_all (\<lambda>w. w \<noteq> [] \<and> list_all isPlainWordChar w) badWordsList"
  shows "containsBadWord text badWordsList ''strict'' =
           Some (list_ex (\<lambda>w. occursAtBoundary w (toLowerCase text)) badWordsList)"
proof (cases "text = [] \<or> badWordsList = []")
  case True
  have "\<not> list_ex (\<lambda>w. occursAtBoundary w (toLowerCase [])) badWordsList"
    using assms by (auto simp: list_ex_iff list_all_iff toLowerCase_def not_occurs_in_empty)
  then show ?thesis using True by (auto simp: containsBadWord_def)
next
  case False
  then show ?thesis
    using someStrict_plain [OF assms lowered_toLowerCase, of "text"]
    by (simp add: containsBadWord_def Let_def)
qed

text \<open>
  C1. The specification: under \<open>strict\<close> the call is true exactly when a listed
  word occurs in the text between token boundaries, and never for a word inside a larger
  word. The code
  puts the word into the pattern unescaped, so its characters are read as pattern syntax,
  while the \<open>loose\<close> and \<open>normal\<close> branches compare the word literally:
  \<^item> the word \<open>a.c\<close> matches the text \<open>abc\<close>, in which it does not occur;
  \<^item> the word \<open>a$$\<close> matches the text \<open>a\<close>;
  \<^item> the word \<open>@ss\<close> is not found in \<open>you @ss\<close>, where it stands alone, and is
    found in \<open>cl@ss\<close>, where it is the end of a longer token.

  For lists of non-empty words of plain word characters the code finds exactly the
  occurrences with no \<open>[A-Za-z0-9_]\<close> character next to them
  (\<open>strict_plain_words\<close> above).
\<close>

theorem strict_reads_word_as_pattern:
  "containsBadWord ''abc'' [''a.c''] ''strict'' = Some True
   \<and> \<not> sublist ''a.c'' (toLowerCase ''abc'')
   \<and> containsBadWord ''abc'' [''a.c''] ''loose'' = Some False
   \<and> containsBadWord ''a'' [''a$$''] ''strict'' = Some True
   \<and> containsBadWord ''you @ss'' [''@ss''] ''strict'' = Some False
   \<and> containsBadWord ''you @ss'' [''@ss''] ''loose'' = Some True
   \<and> containsBadWord ''cl@ss'' [''@ss''] ''strict'' = Some True"
  by code_simp


section \<open>Message-rate window: proofs\<close>

lemma getUserMessageCount_Some:
  "userMessages (mkKey g u) = Some ts \<Longrightarrow>
   getUserMessageCount now g u w userMessages =
     (length (filter (\<lambda>t. now - t \<le> w * 1000) ts),
      userMessages(mkKey g u \<mapsto> filter (\<lambda>t. now - t \<le> w * 1000) ts))"
  by (simp add: getUserMessageCount_def Let_def)

lemma getUserMessageCount_None:
  "userMessages (mkKey g u) = None \<Longrightarrow> getUserMessageCount now g u w userMessages = (0, userMessages)"
  by (simp add: getUserMessageCount_def)

lemma count_eq_stored:
  "fst (getUserMessageCount now g u w m) = length (filter (\<lambda>t. now - t \<le> w * 1000) (stored m (mkKey g u)))"
  by (simp add: getUserMessageCount_def stored_def Let_def split: option.splits)

lemma stored_addUserMessage:
  "stored (addUserMessage now g u m) (mkKey g u) =
     (if 20 \<le> length (stored m (mkKey g u)) then tl (stored m (mkKey g u)) @ [now]
      else stored m (mkKey g u) @ [now])"
  by (cases "stored m (mkKey g u)") (auto simp: addUserMessage_def stored_def Let_def split: option.splits)

lemma now_in_stored: "now \<in> set (stored (addUserMessage now g u m) (mkKey g u))"
  by (simp add: stored_addUserMessage)

lemma record_then_count: "1 \<le> fst (getUserMessageCount now g u 0 (addUserMessage now g u m))"
proof -
  let ?recent = "filter (\<lambda>t. now - t \<le> 0 * 1000) (stored (addUserMessage now g u m) (mkKey g u))"
  have "now \<in> set ?recent"
    using now_in_stored by simp
  then have "0 < length ?recent"
    by (rule length_pos_if_in_set)
  then have "1 \<le> length ?recent"
    by arith
  then show ?thesis by (simp only: count_eq_stored)
qed

lemma count_past_window:
  "\<forall>t\<in>set (stored m (mkKey g u)). w * 1000 < now - t \<Longrightarrow> fst (getUserMessageCount now g u w m) = 0"
proof -
  assume past: "\<forall>t\<in>set (stored m (mkKey g u)). w * 1000 < now - t"
  have "filter (\<lambda>t. now - t \<le> w * 1000) (stored m (mkKey g u)) = []"
    unfolding filter_empty_conv using past by fastforce
  then show ?thesis by (simp only: count_eq_stored list.size)
qed

text \<open>
  C2. \<open>getUserMessageCount\<close> keeps of the key's timestamps those \<open>t\<close> with
  \<open>now - t \<le> w * 1000\<close>, stores that list under the key and returns its length; for a
  key that is absent it returns 0 and leaves the map as it is. A message recorded at
  \<open>now\<close> is counted at the same instant with window 0, and when every stored timestamp
  lies further back than the window the count is 0.
\<close>

theorem getUserMessageCount_window:
  "(userMessages (mkKey g u) = Some ts \<longrightarrow>
      getUserMessageCount now g u w userMessages =
        (length (filter (\<lambda>t. now - t \<le> w * 1000) ts),
         userMessages(mkKey g u \<mapsto> filter (\<lambda>t. now - t \<le> w * 1000) ts)))
   \<and> (userMessages (mkKey g u) = None \<longrightarrow>
        getUserMessageCount now g u w userMessages = (0, userMessages))
   \<and> 1 \<le> fst (getUserMessageCount now g u 0 (addUserMessage now g u userMessages))
   \<and> ((\<forall>t\<in>set (stored userMessages (mkKey g u)). w * 1000 < now - t) \<longrightarrow>
        fst (getUserMessageCount now g u w userMessages) = 0)"
proof (intro conjI impI)
  assume "userMessages (mkKey g u) = Some ts"
  then show "getUserMessageCount now g u w userMessages =
        (length (filter (\<lambda>t. now - t \<le> w * 1000) ts),
         userMessages(mkKey g u \<mapsto> filter (\<lambda>t. now - t \<le> w * 1000) ts))"
    by (rule getUserMessageCount_Some)
next
  assume "userMessages (mkKey g u) = None"
  then show "getUserMessageCount now g u w userMessages = (0, userMessages)"
    by (rule getUserMessageCount_None)
next
  show "1 \<le> fst (getUserMessageCount now g u 0 (addUserMessage now g u userMessages))"
    by (rule record_then_count)
next
  assume "\<forall>t\<in>set (stored userMessages (mkKey g u)). w * 1000 < now - t"
  then show "fst (getUserMessageCount now g u w userMessages) = 0"
    by (rule count_past_window)
qed

theorem getUserMessageCount_window_witness:
  "getUserMessageCount 7000 ''g'' ''u'' 3 [mkKey ''g'' ''u'' \<mapsto> [1000, 5000]] =
     (1, [mkKey ''g'' ''u'' \<mapsto> [5000]])
   \<and> getUserMessageCount 7000 ''g'' ''u'' 3 Map.empty = (0, Map.empty)
   \<and> 1 \<le> fst (getUserMessageCount 7000 ''g'' ''u'' 0 (addUserMessage 7000 ''g'' ''u'' Map.empty))
   \<and> fst (getUserMessageCount 9000 ''g'' ''u'' 3 [mkKey ''g'' ''u'' \<mapsto> [1000, 5000]]) = 0"
proof -
  let ?m = "[mkKey ''g'' ''u'' \<mapsto> [1000, 5000::int]]"
  have present: "?m (mkKey ''g'' ''u'') = Some [1000, 5000]" by simp
  have absent: "(Map.empty :: message_map) (mkKey ''g'' ''u'') = None" by simp
  have past: "\<forall>t\<in>set (stored ?m (mkKey ''g'' ''u'')). 3 * 1000 < 9000 - t"
    by (simp add: stored_def)
  have 1: "getUserMessageCount 7000 ''g'' ''u'' 3 ?m = (1, [mkKey ''g'' ''u'' \<mapsto> [5000]])"
    using getUserMessageCount_window [of ?m "''g''" "''u''" "[1000, 5000]" 7000 3] present
    by simp
  have 2: "getUserMessageCount 7000 ''g'' ''u'' 3 Map.empty = (0, Map.empty)"
    using getUserMessageCount_window [of Map.empty "''g''" "''u''" "[]" 7000 3] absent
    by blast
  have 3: "1 \<le> fst (getUserMessageCount 7000 ''g'' ''u'' 0
                       (addUserMessage 7000 ''g'' ''u'' Map.empty))"
    using getUserMessageCount_window [of Map.empty "''g''" "''u''" "[]" 7000 3]
    by blast
  have 4: "fst (getUserMessageCount 9000 ''g'' ''u'' 3 ?m) = 0"
    using getUserMessageCount_window [of ?m "''g''" "''u''" "[1000, 5000]" 9000 3] past
    by blast
  from 1 2 3 4 show ?thesis by blast
qed

lemma stored_other_add: "k \<noteq> mkKey g u \<Longrightarrow> stored (addUserMessage now g u m) k = stored m k"
  by (simp add: addUserMessage_def stored_def Let_def)

lemma length_stored_add:
  "length (stored m k) \<le> 20 \<Longrightarrow> length (stored (addUserMessage now g u m) k) \<le> 20"
  by (cases "k = mkKey g u") (auto simp: stored_addUserMessage stored_other_add)

lemma length_stored_count:
  "length (stored m k) \<le> 20 \<Longrightarrow> length (stored (snd (getUserMessageCount now g u w m)) k) \<le> 20"
  by (auto simp: getUserMessageCount_def stored_def Let_def intro: le_trans[OF length_filter_le] split: option.splits)

lemma rateStep_bounded:
  assumes "length (stored m k) \<le> 20"
  shows "length (stored (rateStep m op) k) \<le> 20"
proof (cases op)
  case (AddUserMessage now g u)
  then show ?thesis using assms by (simp add: length_stored_add)
next
  case (GetUserMessageCount now g u w)
  then show ?thesis using assms by (simp add: length_stored_count)
next
  case (ClearUserMessages g u)
  then show ?thesis using assms by (simp add: clearUserMessages_def stored_def)
next
  case (ClearAllGroupMessages g)
  then show ?thesis using assms by (simp add: clearAllGroupMessages_def stored_def)
next
  case ClearAllGroupsSpamWarns
  then show ?thesis by (simp add: clearAllGroupsMessages_def stored_def)
qed

lemma run_bounded_from:
  "length (stored m k) \<le> 20 \<Longrightarrow> length (stored (foldl rateStep m ops) k) \<le> 20"
  by (induction ops arbitrary: m) (auto simp: rateStep_bounded)

lemma run_bounded: "length (stored (foldl rateStep Map.empty ops) k) \<le> 20"
  by (rule run_bounded_from) (simp add: stored_def)

lemma sorted_tl: "sorted xs \<Longrightarrow> sorted (tl xs)"
  by (cases xs) auto

lemma sorted_add:
  assumes "sorted (stored m (mkKey g u))" "\<forall>t\<in>set (stored m (mkKey g u)). t \<le> now"
  shows "sorted (stored (addUserMessage now g u m) (mkKey g u))"
proof -
  have a: "sorted (stored m (mkKey g u) @ [now])"
    using assms by (simp add: sorted_append)
  have "sorted (tl (stored m (mkKey g u)) @ [now])"
    using assms by (cases "stored m (mkKey g u)") (auto simp: sorted_append)
  with a show ?thesis by (simp add: stored_addUserMessage)
qed

text \<open>
  C9. \<open>addUserMessage\<close> appends \<open>now\<close> to the key's sequence and, when the sequence
  held 20 entries or more, drops exactly its first (oldest) entry; the entries that stay
  keep their order, and a sequence of non-decreasing timestamps stays non-decreasing when
  the clock has not gone back. Every operation on \<open>userMessages\<close> keeps every key at 20
  entries at most, so every state reached from the empty map does.
\<close>

theorem addUserMessage_bounded:
  "stored (addUserMessage now g u m) (mkKey g u) =
     (if 20 \<le> length (stored m (mkKey g u)) then tl (stored m (mkKey g u)) @ [now]
      else stored m (mkKey g u) @ [now])
   \<and> (length (stored m k) \<le> 20 \<longrightarrow> length (stored (rateStep m op) k) \<le> 20)
   \<and> length (stored (foldl rateStep Map.empty ops) k) \<le> 20
   \<and> (sorted (stored m (mkKey g u)) \<and> (\<forall>t\<in>set (stored m (mkKey g u)). t \<le> now) \<longrightarrow>
        sorted (stored (addUserMessage now g u m) (mkKey g u)))"
proof (intro conjI impI)
  show "stored (addUserMessage now g u m) (mkKey g u) =
     (if 20 \<le> length (stored m (mkKey g u)) then tl (stored m (mkKey g u)) @ [now]
      else stored m (mkKey g u) @ [now])"
    by (rule stored_addUserMessage)
next
  assume "length (stored m k) \<le> 20"
  then show "length (stored (rateStep m op) k) \<le> 20"
    by (rule rateStep_bounded)
next
  show "length (stored (foldl rateStep Map.empty ops) k) \<le> 20"
    by (rule run_bounded)
next
  assume "sorted (stored m (mkKey g u)) \<and> (\<forall>t\<in>set (stored m (mkKey g u)). t \<le> now)"
  then show "sorted (stored (addUserMessage now g u m) (mkKey g u))"
    using sorted_add by blast
qed

theorem addUserMessage_bounded_witness:
  "stored (addUserMessage 21 ''g'' ''u''
       [mkKey ''g'' ''u'' \<mapsto> [1, 2, 3, 4, 5, 6, 7, 8, 9, 10, 11, 12, 13, 14, 15, 16, 17, 18, 19, 20]])
     (mkKey ''g'' ''u'')
     = [2, 3, 4, 5, 6, 7, 8, 9, 10, 11, 12, 13, 14, 15, 16, 17, 18, 19, 20, 21]
   \<and> length (stored [mkKey ''g'' ''u'' \<mapsto> [1, 2, 3]] (mkKey ''g'' ''u'')) \<le> 20
   \<and> length (stored (rateStep [mkKey ''g'' ''u'' \<mapsto> [1, 2, 3]] (AddUserMessage 4 ''g'' ''u''))
               (mkKey ''g'' ''u'')) \<le> 20
   \<and> sorted (stored [mkKey ''g'' ''u'' \<mapsto> [1, 2, 3]] (mkKey ''g'' ''u''))
   \<and> sorted (stored (addUserMessage 4 ''g'' ''u'' [mkKey ''g'' ''u'' \<mapsto> [1, 2, 3]])
               (mkKey ''g'' ''u''))"
proof -
  let ?full = "[mkKey ''g'' ''u'' \<mapsto> [1, 2, 3, 4, 5, 6, 7, 8, 9, 10, 11, 12, 13, 14, 15, 16, 17, 18, 19, 20::int]]"
  let ?m = "[mkKey ''g'' ''u'' \<mapsto> [1, 2, 3::int]]"
  have small: "length (stored ?m (mkKey ''g'' ''u'')) \<le> 20"
    by (simp add: stored_def)
  have ordered: "sorted (stored ?m (mkKey ''g'' ''u''))
      \<and> (\<forall>t\<in>set (stored ?m (mkKey ''g'' ''u'')). t \<le> 4)"
    by (simp add: stored_def)
  have 1: "stored (addUserMessage 21 ''g'' ''u'' ?full) (mkKey ''g'' ''u'')
      = [2, 3, 4, 5, 6, 7, 8, 9, 10, 11, 12, 13, 14, 15, 16, 17, 18, 19, 20, 21]"
    using addUserMessage_bounded [of 21 "''g''" "''u''" ?full]
    by (simp add: stored_def)
  have 2: "length (stored (rateStep ?m (AddUserMessage 4 ''g'' ''u'')) (mkKey ''g'' ''u'')) \<le> 20"
    using addUserMessage_bounded [of 4 "''g''" "''u''" ?m "mkKey ''g'' ''u''" "AddUserMessage 4 ''g'' ''u''"]
      small
    by blast
  have 3: "sorted (stored (addUserMessage 4 ''g'' ''u'' ?m) (mkKey ''g'' ''u''))"
    using addUserMessage_bounded [of 4 "''g''" "''u''" ?m] ordered
    by blast
  from 1 2 3 small ordered show ?thesis by blast
qed


section \<open>In-memory warn counters: proofs\<close>

lemma mkKey_inj:
  "CHR '':'' \<notin> set g1 \<Longrightarrow> CHR '':'' \<notin> set g2 \<Longrightarrow> mkKey g1 u1 = mkKey g2 u2 \<Longrightarrow> g1 = g2 \<and> u1 = u2"
proof (induction g1 arbitrary: g2)
  case Nil
  then show ?case by (cases g2) (auto simp: mkKey_def)
next
  case (Cons c g1)
  then show ?case by (cases g2) (auto simp: mkKey_def)
qed

lemma group_prefix_inj:
  "CHR '':'' \<notin> set g1 \<Longrightarrow> CHR '':'' \<notin> set g2 \<Longrightarrow> startsWith (mkKey g2 u2) (g1 @ '':'') \<Longrightarrow> g1 = g2"
proof (induction g1 arbitrary: g2)
  case Nil
  then show ?case by (cases g2) (auto simp: mkKey_def)
next
  case (Cons c g1)
  then show ?case by (cases g2) (auto simp: mkKey_def)
qed

text \<open>
  C8, as amended. For two distinct pairs whose group ids hold no colon, incrementing or
  resetting the counter of the first pair leaves the count of the second as it was, and
  so does clearing the group of the first pair when the groups differ. The same holds
  for the counters of database/antibad.js.
\<close>

theorem warn_counter_frame:
  assumes "CHR '':'' \<notin> set g1" and "CHR '':'' \<notin> set g2" and "(g1, u1) \<noteq> (g2, u2)"
  shows "getWarnCount (snd (incrementWarnCount g1 u1 m)) g2 u2 = getWarnCount m g2 u2
       \<and> getWarnCount (resetWarnCount g1 u1 m) g2 u2 = getWarnCount m g2 u2
       \<and> (g1 \<noteq> g2 \<longrightarrow> getWarnCount (clearAllWarns g1 m) g2 u2 = getWarnCount m g2 u2)
       \<and> getBadWarnCount (snd (incrementBadWarnCount g1 u1 m)) g2 u2 = getBadWarnCount m g2 u2
       \<and> getBadWarnCount (resetBadWarnCount g1 u1 m) g2 u2 = getBadWarnCount m g2 u2
       \<and> (g1 \<noteq> g2 \<longrightarrow> getBadWarnCount (clearAllBadWarns g1 m) g2 u2 = getBadWarnCount m g2 u2)"
proof -
  have keys: "mkKey g1 u1 \<noteq> mkKey g2 u2"
    using assms mkKey_inj by blast
  have pre: "\<not> startsWith (mkKey g2 u2) (g1 @ '':'')" if "g1 \<noteq> g2"
    using assms(1,2) that group_prefix_inj by blast
  show ?thesis
    using keys pre
    by (simp add: getWarnCount_def incrementWarnCount_def resetWarnCount_def clearAllWarns_def
        getBadWarnCount_def incrementBadWarnCount_def resetBadWarnCount_def clearAllBadWarns_def
        Let_def)
qed

theorem warn_counter_frame_witness:
  "CHR '':'' \<notin> set ''g1'' \<and> CHR '':'' \<notin> set ''g2'' \<and> (''g1'', ''u:1'') \<noteq> (''g2'', ''u'')
   \<and> getWarnCount (snd (incrementWarnCount ''g1'' ''u:1'' [mkKey ''g2'' ''u'' \<mapsto> 2])) ''g2'' ''u'' = 2
   \<and> getWarnCount (resetWarnCount ''g1'' ''u:1'' [mkKey ''g2'' ''u'' \<mapsto> 2]) ''g2'' ''u'' = 2
   \<and> getWarnCount (clearAllWarns ''g1'' [mkKey ''g2'' ''u'' \<mapsto> 2]) ''g2'' ''u'' = 2"
proof -
  have a: "CHR '':'' \<notin> set ''g1''" by simp
  have b: "CHR '':'' \<notin> set ''g2''" by simp
  have c: "(''g1'', ''u:1'') \<noteq> (''g2'', ''u'')" by simp
  have d: "''g1'' \<noteq> ''g2''" by simp
  have e: "getWarnCount [mkKey ''g2'' ''u'' \<mapsto> 2] ''g2'' ''u'' = 2"
    by (simp add: getWarnCount_def)
  from warn_counter_frame [OF a b c, of "[mkKey ''g2'' ''u'' \<mapsto> 2]"] d e a b c
  show ?thesis by simp
qed

text \<open>
  Without the condition on the group ids the statement fails: the pairs \<open>("a:b", "c")\<close>
  and \<open>("a", "b:c")\<close> share the key \<open>a:b:c\<close>, and clearing the group \<open>a\<close> removes
  the counters of the group \<open>a:b\<close>.
\<close>

theorem key_collision_counterexample:
  "(''a:b'', ''c'') \<noteq> (''a'', ''b:c'')
   \<and> getWarnCount Map.empty ''a'' ''b:c'' = 0
   \<and> getWarnCount (snd (incrementWarnCount ''a:b'' ''c'' Map.empty)) ''a'' ''b:c'' = 1
   \<and> ''a'' \<noteq> ''a:b''
   \<and> getWarnCount [mkKey ''a:b'' ''c'' \<mapsto> 2] ''a:b'' ''c'' = 2
   \<and> getWarnCount (clearAllWarns ''a'' [mkKey ''a:b'' ''c'' \<mapsto> 2]) ''a:b'' ''c'' = 0"
  by (simp add: getWarnCount_def incrementWarnCount_def clearAllWarns_def mkKey_def Let_def)


section \<open>Warn tracker: proofs\<close>






















lemma getUserWarns_store_newest_first:
  assumes "warnCache s (mkKey g u) = None"
  shows "sorted (map (\<lambda>w. - c_createdAt w) (getUserWarns s g u))"
proof -
  have "map (\<lambda>w. - c_createdAt w) (getUserWarns s g u) =
      map (\<lambda>w. - w_createdAt w)
        (sort_key (\<lambda>w. - w_createdAt w)
           (filter (\<lambda>w. w_groupJid w = g \<and> w_userJid w = u) (WarnsDB s)))"
    using assms by (simp add: getUserWarns_def toCached_def comp_def)
  then show ?thesis by simp
qed

text \<open>
  C5. The specification: \<open>getUserWarns\<close> returns the newest warn first, from the cache as from
  the store. The store branch orders by \<open>createdAt\<close> descending; the cache branch
  returns the cached array, to which \<open>addWarn\<close> and \<open>refreshWarnCache\<close> append, so
  it is oldest first (the store branch alone is ordered as claimed,
  \<open>getUserWarns_store_newest_first\<close>). After two warns at times 1000 and 2000 the cache gives
  \<open>[1000, 2000]\<close>, the store (cache dropped) gives \<open>[2000, 1000]\<close>, and the cache
  rebuilt from the store gives \<open>[1000, 2000]\<close> again.
\<close>

theorem getUserWarns_cache_oldest_first:
  "map c_createdAt
     (getUserWarns
        (snd (addWarn 2000 ''g'' ''u'' ''admin'' ''second''
           (snd (addWarn 1000 ''g'' ''u'' ''admin'' ''first'' emptyWarnState))))
        ''g'' ''u'') = [1000, 2000]
   \<and> map c_createdAt
     (getUserWarns
        ((snd (addWarn 2000 ''g'' ''u'' ''admin'' ''second''
           (snd (addWarn 1000 ''g'' ''u'' ''admin'' ''first'' emptyWarnState))))
         \<lparr>warnCache := Map.empty\<rparr>)
        ''g'' ''u'') = [2000, 1000]
   \<and> map c_createdAt
     (getUserWarns
        (refreshWarnCache
           (snd (addWarn 2000 ''g'' ''u'' ''admin'' ''second''
              (snd (addWarn 1000 ''g'' ''u'' ''admin'' ''first'' emptyWarnState)))))
        ''g'' ''u'') = [1000, 2000]"
  by code_simp

lemma resetLoop_undefined_Op:
  "resetLoop None settings now warns = (if settings = [] then Inr warns else Inl TypeError)"
  by (cases settings) (simp_all add: Let_def)

lemma autoResetOldWarns_throws:
  "autoResetOldWarns now s = (if WarnSettingsDB s = [] then refreshWarnCache s else s)"
  by (simp add: autoResetOldWarns_def DataTypes_Op_def resetLoop_undefined_Op)

text \<open>
  With an operator table in place of the undefined \<open>DataTypes.Op\<close> the loop would
  delete, and the cutoff of the second group would lie below the specified one by the
  days of the first.
\<close>

lemma resetLoop_single:
  "resetLoop (Some (<)) [setting] now warns =
     Inr (filter (\<lambda>w. \<not> (w_groupJid w = row_groupJid setting
                    \<and> w_createdAt w < now - auto_reset_days setting * msPerDay)) warns)"
  by (simp add: Let_def)

lemma resetLoop_second_cutoff:
  "resetLoop (Some (<)) [s1, s2] now warns =
     Inr (filter (\<lambda>w. \<not> (w_groupJid w = row_groupJid s2
                    \<and> w_createdAt w < now - auto_reset_days s1 * msPerDay - auto_reset_days s2 * msPerDay))
       (filter (\<lambda>w. \<not> (w_groupJid w = row_groupJid s1
                    \<and> w_createdAt w < now - auto_reset_days s1 * msPerDay)) warns))"
  by (simp add: Let_def)

text \<open>
  C6. The specification: one run deletes, for every group with settings, the warns older
  than that group's own \<open>auto_reset_days\<close> counted back from the time the sweep
  started, and then rebuilds the cache from the store. In the code the first pass of the
  loop throws a TypeError at \<open>DataTypes.Op.lt\<close>; the \<open>catch\<close> branch logs it, so with
  any settings row in the table nothing is deleted and the cache is not rebuilt. After one
  \<open>addWarn\<close> at time 0 (which creates the settings row of the group, 7 days) a sweep
  10 days later leaves the warn in the store and in the count of the user. And with the
  same store and an empty cache the sweep leaves the cache empty, where
  \<open>refreshWarnCache\<close> would load the row.
\<close>

theorem autoResetOldWarns_deletes_nothing:
  "map auto_reset_days
     (WarnSettingsDB (snd (addWarn 0 ''g'' ''u'' ''admin'' ''spam'' emptyWarnState))) = [7]
   \<and> map w_createdAt
     (WarnsDB (snd (addWarn 0 ''g'' ''u'' ''admin'' ''spam'' emptyWarnState))) = [0]
   \<and> map w_id
     (WarnsDB (autoResetOldWarns (10 * msPerDay)
        (snd (addWarn 0 ''g'' ''u'' ''admin'' ''spam'' emptyWarnState)))) = [1]
   \<and> getUserWarnCount
     (autoResetOldWarns (10 * msPerDay)
        (snd (addWarn 0 ''g'' ''u'' ''admin'' ''spam'' emptyWarnState))) ''g'' ''u'' = 1
   \<and> cachedCount
     (autoResetOldWarns (10 * msPerDay)
        ((snd (addWarn 0 ''g'' ''u'' ''admin'' ''spam'' emptyWarnState))\<lparr>warnCache := Map.empty\<rparr>))
     ''g'' ''u'' = 0
   \<and> cachedCount
     (refreshWarnCache
        ((snd (addWarn 0 ''g'' ''u'' ''admin'' ''spam'' emptyWarnState))\<lparr>warnCache := Map.empty\<rparr>))
     ''g'' ''u'' = 1"
  by code_simp


section \<open>Bulk queries: proofs\<close>

lemma orderByUpdatedAtDesc_sorted:
  "sorted (map (\<lambda>r. - row_updatedAt r) (orderByUpdatedAtDesc rows))"
  by (simp add: orderByUpdatedAtDesc_def)

lemma getAllAntiSpamGroups_enabled:
  "set (getAllAntiSpamGroups table) = {r \<in> set table. row_status r = ''on''}
   \<and> sorted (map (\<lambda>r. - row_updatedAt r) (getAllAntiSpamGroups table))"
  by (simp add: getAllAntiSpamGroups_def orderByUpdatedAtDesc_sorted)
     (simp add: orderByUpdatedAtDesc_def)

lemma getAllGroupEventsGroups_enabled:
  "set (getAllGroupEventsGroups table) = {r \<in> set table. ge_enabled r}
   \<and> sorted (map (\<lambda>r. - ge_updatedAt r) (getAllGroupEventsGroups table))"
  by (simp add: getAllGroupEventsGroups_def)

text \<open>
  C7. The specification: every bulk query returns the enabled rows only, most recently updated
  first. \<open>getAllAntiSpamGroups\<close> and its siblings filter on the status;
  \<open>getAllWarnGroups\<close> has no filter and returns the rows whose status is \<open>off\<close> too.
  On a table with a disabled group \<open>g1\<close> (updated at 5) and an enabled group \<open>g2\<close>
  (updated at 0) it returns both, and the query of the anti-spam module on the same rows
  returns \<open>g2\<close> only.
\<close>

theorem getAllWarnGroups_returns_disabled:
  "map row_groupJid (getAllWarnGroups
      (emptyWarnState\<lparr>WarnSettingsDB := [settingsRow ''g1'' ''off'' 5 7, settingsRow ''g2'' ''on'' 0 7]\<rparr>))
     = [''g1'', ''g2'']
   \<and> map row_status (getAllWarnGroups
      (emptyWarnState\<lparr>WarnSettingsDB := [settingsRow ''g1'' ''off'' 5 7, settingsRow ''g2'' ''on'' 0 7]\<rparr>))
     = [''off'', ''on'']
   \<and> map row_groupJid (getAllAntiSpamGroups
        [settingsRow ''g1'' ''off'' 5 7, settingsRow ''g2'' ''on'' 0 7]) = [''g2'']"
  by code_simp

end
